theory Spec2Isabelle
  imports Main
begin

section \<open>Taint-trace nodes\<close>

text \<open>
  The scanner's span records: a position has a line, a column and a byte offset; a span
  has a start and an end position. Python's integers are unbounded, hence \<open>int\<close>.
  A text is a \<open>string\<close>, one \<open>char\<close> for each character of the Python string.
\<close>

record position =
  line :: int
  col :: int
  pos_offset :: int

record span =
  span_start :: position
  span_end :: position

text \<open>
  Python's \<^verbatim>\<open>s[a:b]\<close> on a sequence: a negative index counts from the end, both
  indices are clamped to \<open>[0, len s]\<close>, and an upper bound below the lower one gives the
  empty sequence.
\<close>

definition py_index :: "nat \<Rightarrow> int \<Rightarrow> nat" where
  "py_index n i = (if i < 0 then nat (max 0 (i + int n)) else min (nat i) n)"

definition py_slice :: "'a list \<Rightarrow> int \<Rightarrow> int \<Rightarrow> 'a list" where
  "py_slice s a b = take (py_index (length s) b - py_index (length s) a) (drop (py_index (length s) a) s)"

text \<open>
  \<^verbatim>\<open>str.replace(old, new)\<close> with a one-character pattern, which is how every call in
  \<^verbatim>\<open>TaintTrace.context\<close> uses it: each occurrence of the character is replaced,
  left to right.
\<close>

primrec replace :: "char \<Rightarrow> string \<Rightarrow> string \<Rightarrow> string" where
  "replace old new [] = []"
| "replace old new (c # cs) =
     (if c = old then new @ replace old new cs else c # replace old new cs)"

text \<open>
  Class \<^verbatim>\<open>TaintTrace\<close>. The field \<open>raw_context\<close> is \<^verbatim>\<open>self._context\<close>;
  \<open>next_traces\<close> is a Python set of node objects, kept here as the list of their
  references (no two of them equal under \<^verbatim>\<open>__eq__\<close>). A reference is the identity of a
  node object in the store.
\<close>

type_synonym ref = nat

record TaintTrace =
  start :: position
  end_pos :: position
  offset :: int
  raw_context :: string
  next_traces :: "ref list"

text \<open>\<^verbatim>\<open>TaintTrace.__init__\<close>, given the span and its \<^verbatim>\<open>"context"\<close> entry.\<close>

definition TaintTrace_init :: "span \<Rightarrow> string \<Rightarrow> TaintTrace" where
  "TaintTrace_init tr ctx =
     \<lparr> start = span_start tr, end_pos = span_end tr, offset = pos_offset (span_start tr),
       raw_context = ctx, next_traces = [] \<rparr>"

text \<open>
  The property \<^verbatim>\<open>context\<close>: five replacements in the order of the source. The
  characters are the double quote (0x22), the single quote (0x27), \<open><\<close>, \<open>>\<close> and the
  newline (0x0A).
\<close>

definition escape :: "string \<Rightarrow> string" where
  "escape s =
     replace (CHR 0x0A) ''<br>''
       (replace (CHR ''>'') ''&gt;''
         (replace (CHR ''<'') ''&lt;''
           (replace (CHR 0x27) ''#apos;''
             (replace (CHR 0x22) ''#quot;'' s))))"

text \<open>What the five replacements do to one character.\<close>

definition escape_char :: "char \<Rightarrow> string" where
  "escape_char c =
     (if c = CHR 0x22 then ''#quot;''
      else if c = CHR 0x27 then ''#apos;''
      else if c = CHR ''<'' then ''&lt;''
      else if c = CHR ''>'' then ''&gt;''
      else if c = CHR 0x0A then ''<br>''
      else [c])"


definition context_of :: "TaintTrace \<Rightarrow> string" where
  "context_of n = escape (raw_context n)"

text \<open>
  \<^verbatim>\<open>__hash__\<close> applies the runtime's \<^verbatim>\<open>hash\<close> to the pair of the offset and the
  escaped context. The runtime's function is a parameter \<open>H\<close> of the model.
\<close>

definition hash_node :: "(int \<times> string \<Rightarrow> int) \<Rightarrow> TaintTrace \<Rightarrow> int" where
  "hash_node H n = H (offset n, context_of n)"

text \<open>\<^verbatim>\<open>__eq__\<close> and \<^verbatim>\<open>__lt__\<close>.\<close>

definition node_eq :: "TaintTrace \<Rightarrow> TaintTrace \<Rightarrow> bool" where
  "node_eq a b = (offset a = offset b \<and> context_of a = context_of b)"

definition node_lt :: "TaintTrace \<Rightarrow> TaintTrace \<Rightarrow> bool" where
  "node_lt a b = (offset a < offset b)"

text \<open>
  The node that \<^verbatim>\<open>associate_info\<close> builds for one span: the context is the slice of
  the file contents between the span's two offsets.
\<close>

definition span_context :: "string \<Rightarrow> span \<Rightarrow> string" where
  "span_context file_contents r =
     py_slice file_contents (pos_offset (span_start r)) (pos_offset (span_end r))"

definition covers :: "string \<Rightarrow> TaintTrace \<Rightarrow> bool" where
  "covers file_contents n =
     (raw_context n = py_slice file_contents (offset n) (pos_offset (end_pos n)))"

section \<open>The store of node objects\<close>

text \<open>
  Node objects are mutable and shared by reference, so they live in a store: a heap from
  references to node values. Every reference that the program holds is to a live object.
\<close>

type_synonym heap = "ref \<Rightarrow> TaintTrace"

text \<open>
  Python's \<^verbatim>\<open>set\<close> of nodes: an element is added unless the set already holds one
  that is equal to it under \<^verbatim>\<open>__eq__\<close>.
\<close>

definition set_add :: "heap \<Rightarrow> ref list \<Rightarrow> ref \<Rightarrow> ref list" where
  "set_add h s r = (if \<exists>x\<in>set s. node_eq (h x) (h r) then s else s @ [r])"

definition py_set :: "heap \<Rightarrow> ref list \<Rightarrow> ref list" where
  "py_set h xs = foldl (set_add h) [] xs"

definition set_next_traces :: "ref \<Rightarrow> ref list \<Rightarrow> heap \<Rightarrow> heap" where
  "set_next_traces r nts h = h(r := (h r)\<lparr>next_traces := py_set h nts\<rparr>)"

text \<open>\<^verbatim>\<open>update_traces\<close> is defined by the class; no code of the program calls it.\<close>

definition update_traces :: "ref \<Rightarrow> ref list \<Rightarrow> heap \<Rightarrow> heap" where
  "update_traces r other h =
     h(r := (h r)\<lparr>next_traces := foldl (set_add h) (next_traces (h r)) other\<rparr>)"

text \<open>
  \<^verbatim>\<open>to_mermaid_node\<close> yields one edge line per successor; the line is made of the two
  hashes, kept here as a pair.
\<close>

definition to_mermaid_node :: "(int \<times> string \<Rightarrow> int) \<Rightarrow> heap \<Rightarrow> ref \<Rightarrow> (int \<times> int) list" where
  "to_mermaid_node H h r = map (\<lambda>t. (hash_node H (h r), hash_node H (h t))) (next_traces (h r))"

section \<open>Trace graphs\<close>

datatype error = IndexError string

definition list_index_error :: error where
  "list_index_error = IndexError ''list index out of range''"

record TaintTraceGraph =
  sources :: "ref list"
  intermediates :: "ref list"
  sinks :: "ref list"

text \<open>
  \<^verbatim>\<open>sorted\<close> compares with \<^verbatim>\<open>__lt__\<close>, that is by offset, and is stable.
\<close>

definition sorted_nodes :: "heap \<Rightarrow> ref list \<Rightarrow> ref list" where
  "sorted_nodes h xs = sort_key (\<lambda>r. offset (h r)) xs"

text \<open>
  The loop \<^verbatim>\<open>for i in range(len(xs) - 1): xs[i].set_next_traces([xs[i + 1]])\<close>.
\<close>

fun chain :: "ref list \<Rightarrow> heap \<Rightarrow> heap" where
  "chain (x # y # xs) h = chain (y # xs) (set_next_traces x [y] h)"
| "chain [x] h = h"
| "chain [] h = h"

text \<open>
  \<^verbatim>\<open>TaintTraceGraph.__init__\<close>. Indexing an empty list raises \<^verbatim>\<open>IndexError\<close>:
  \<^verbatim>\<open>sources[-1]\<close> when there is no source, \<^verbatim>\<open>sinks[0]\<close> when there is no sink.
\<close>

definition TaintTraceGraph_init ::
  "heap \<Rightarrow> ref list \<Rightarrow> ref list \<Rightarrow> ref list \<Rightarrow> error + (heap \<times> TaintTraceGraph)" where
  "TaintTraceGraph_init h sources0 intermediates0 sinks0 =
     (let srcs = sorted_nodes h sources0;
          ims = sorted_nodes h intermediates0;
          sks = sorted_nodes h sinks0;
          g = \<lparr> sources = srcs, intermediates = ims, sinks = sks \<rparr>;
          h1 = chain srcs h
      in if srcs = [] then Inl list_index_error
         else if ims = [] \<and> sks = [] then Inl list_index_error
         else
           let h2 = set_next_traces (last srcs) [if ims \<noteq> [] then hd ims else hd sks] h1;
               h3 = chain ims h2
           in if ims \<noteq> [] then
                (if sks = [] then Inl list_index_error
                 else Inr (set_next_traces (last ims) [hd sks] h3, g))
              else Inr (h3, g))"

text \<open>
  \<^verbatim>\<open>intersects\<close>: \<^verbatim>\<open>set(xs).intersection(ys)\<close> keeps the elements of the set that are
  equal to an element of \<open>ys\<close>; a set is true when it is not empty.
\<close>

definition set_intersection :: "heap \<Rightarrow> ref list \<Rightarrow> ref list \<Rightarrow> ref list" where
  "set_intersection h s other = filter (\<lambda>a. \<exists>b\<in>set other. node_eq (h a) (h b)) s"

definition intersects :: "heap \<Rightarrow> TaintTraceGraph \<Rightarrow> TaintTraceGraph \<Rightarrow> bool" where
  "intersects h g other =
     (set_intersection h (py_set h (sources g)) (sources other) \<noteq> []
      \<or> set_intersection h (py_set h (intermediates g)) (intermediates other) \<noteq> []
      \<or> set_intersection h (py_set h (sinks g)) (sinks other) \<noteq> [])"

text \<open>
  The edge lines that \<^verbatim>\<open>to_graph\<close> collects, in the order of its three loops, before
  they are put into a set of strings.
\<close>

definition edges :: "(int \<times> string \<Rightarrow> int) \<Rightarrow> heap \<Rightarrow> TaintTraceGraph \<Rightarrow> (int \<times> int) list" where
  "edges H h g = concat (map (to_mermaid_node H h) (sources g @ intermediates g @ sinks g))"

section \<open>The program state and the driver\<close>

text \<open>
  Graph objects are mutable too (\<^verbatim>\<open>update\<close> extends their lists in place), and the
  driver compares them by identity, so they are kept in a second store. \<open>results\<close> is the
  dictionary from check ids to lists of graphs, in insertion order.
\<close>

type_synonym gref = nat

record state =
  heap :: heap
  next_ref :: ref
  graphs :: "gref \<Rightarrow> TaintTraceGraph"
  next_gref :: gref
  results :: "(string \<times> gref list) list"

definition init_state :: state where
  "init_state =
     \<lparr> heap = (\<lambda>_. TaintTrace_init \<lparr>span_start = \<lparr>line = 0, col = 0, pos_offset = 0\<rparr>,
                                     span_end = \<lparr>line = 0, col = 0, pos_offset = 0\<rparr>\<rparr> []),
       next_ref = 0,
       graphs = (\<lambda>_. \<lparr> sources = [], intermediates = [], sinks = [] \<rparr>),
       next_gref = 0,
       results = [] \<rparr>"

text \<open>\<^verbatim>\<open>g.update(h)\<close> for two graph objects: only the lists of \<open>g\<close> change.\<close>

definition update :: "gref \<Rightarrow> gref \<Rightarrow> state \<Rightarrow> state" where
  "update g other st =
     st\<lparr>graphs := (graphs st)
        (g := \<lparr> sources = sources (graphs st g) @ sources (graphs st other),
                intermediates = intermediates (graphs st g) @ intermediates (graphs st other),
                sinks = sinks (graphs st g) @ sinks (graphs st other) \<rparr>)\<rparr>"

text \<open>The scanner's findings, as \<^verbatim>\<open>format_source\<close> and the driver read them.\<close>

record dataflow_trace =
  taint_source :: "span list"
  intermediate_vars :: "span list"

record finding =
  check_id :: string
  location :: span
  dataflow :: "dataflow_trace option"

text \<open>\<^verbatim>\<open>TaintTrace(x)\<close> creates a new object.\<close>

definition new_TaintTrace :: "string \<Rightarrow> span \<Rightarrow> state \<Rightarrow> ref \<times> state" where
  "new_TaintTrace file_contents r st =
     (next_ref st,
      st\<lparr>heap := (heap st)(next_ref st := TaintTrace_init r (span_context file_contents r)),
         next_ref := Suc (next_ref st)\<rparr>)"

fun make_traces :: "string \<Rightarrow> span list \<Rightarrow> state \<Rightarrow> ref list \<times> state" where
  "make_traces file_contents [] st = ([], st)"
| "make_traces file_contents (r # rs) st =
     (let (x, st1) = new_TaintTrace file_contents r st;
          (xs, st2) = make_traces file_contents rs st1
      in (x # xs, st2))"

definition associate_info :: "span list \<Rightarrow> string \<Rightarrow> state \<Rightarrow> ref list \<times> state" where
  "associate_info ranges file_contents st =
     (let (xs, st1) = make_traces file_contents ranges st
      in (filter (\<lambda>x. context_of (heap st1 x) \<noteq> ''.'') xs, st1))"

definition format_source ::
  "finding \<Rightarrow> dataflow_trace \<Rightarrow> string \<Rightarrow> state \<Rightarrow> (ref list \<times> ref list \<times> ref list) \<times> state" where
  "format_source r t file_contents st =
     (let (srcs, st1) = associate_info (taint_source t) file_contents st;
          (ims, st2) = associate_info (intermediate_vars t) file_contents st1;
          (sks, st3) = associate_info [location r] file_contents st2
      in ((srcs, ims, sks), st3))"

text \<open>\<^verbatim>\<open>results[check_id].append(g)\<close>, the list being created when the key is new.\<close>

fun append_result :: "string \<Rightarrow> gref \<Rightarrow> (string \<times> gref list) list \<Rightarrow> (string \<times> gref list) list" where
  "append_result k g [] = [(k, [g])]"
| "append_result k g ((k', gs) # rest) =
     (if k = k' then (k', gs @ [g]) # rest else (k', gs) # append_result k g rest)"

text \<open>
  The body of the loop over \<^verbatim>\<open>data["results"]\<close>. An exception raised by the
  constructor is not caught anywhere, so it ends the run.
\<close>

definition process_finding :: "string \<Rightarrow> finding \<Rightarrow> state \<Rightarrow> error + state" where
  "process_finding file_contents r st =
     (case dataflow r of
        None \<Rightarrow> Inr st
      | Some t \<Rightarrow>
          let ((b, i, e), st1) = format_source r t file_contents st
          in case TaintTraceGraph_init (heap st1) b i e of
               Inl err \<Rightarrow> Inl err
             | Inr (h, g) \<Rightarrow>
                 Inr (st1\<lparr>heap := h,
                         graphs := (graphs st1)(next_gref st1 := g),
                         next_gref := Suc (next_gref st1),
                         results := append_result (check_id r) (next_gref st1) (results st1)\<rparr>))"

fun load_results :: "string \<Rightarrow> finding list \<Rightarrow> state \<Rightarrow> error + state" where
  "load_results file_contents [] st = Inr st"
| "load_results file_contents (r # rs) st =
     (case process_finding file_contents r st of
        Inl err \<Rightarrow> Inl err
      | Inr st1 \<Rightarrow> load_results file_contents rs st1)"

text \<open>
  The clustering loops. \<open>absorb\<close> is the inner loop for one graph \<open>g\<close>; graphs have no
  \<^verbatim>\<open>__eq__\<close>, so \<^verbatim>\<open>g == h\<close> and \<^verbatim>\<open>h in seen\<close> compare identities.
\<close>

fun absorb :: "gref \<Rightarrow> gref list \<Rightarrow> state \<times> gref list \<Rightarrow> state \<times> gref list" where
  "absorb g [] (st, seen) = (st, seen)"
| "absorb g (h # hs) (st, seen) =
     (if h \<in> set seen then absorb g hs (st, seen)
      else if g = h then absorb g hs (st, seen)
      else if intersects (heap st) (graphs st g) (graphs st h)
           then absorb g hs (update g h st, seen @ [h])
           else absorb g hs (st, seen))"

fun cluster_loop ::
  "gref list \<Rightarrow> gref list \<Rightarrow> state \<times> gref list \<times> gref list \<Rightarrow> state \<times> gref list \<times> gref list" where
  "cluster_loop all [] (st, seen, final) = (st, seen, final)"
| "cluster_loop all (g # gs) (st, seen, final) =
     (if g \<in> set seen then cluster_loop all gs (st, seen, final)
      else let (st1, seen1) = absorb g all (st, seen)
           in cluster_loop all gs (st1, seen1, final @ [g]))"

text \<open>The loop over the check ids; the result pairs each check id with its \<open>final\<close> list.\<close>

fun cluster_all :: "(string \<times> gref list) list \<Rightarrow> state \<Rightarrow> state \<times> (string \<times> gref list) list" where
  "cluster_all [] st = (st, [])"
| "cluster_all ((res, gs) # rest) st =
     (let (st1, seen, final) = cluster_loop gs gs (st, [], []);
          (st2, finals) = cluster_all rest st1
      in (st2, (res, final) # finals))"

definition run :: "string \<Rightarrow> finding list \<Rightarrow> error + (state \<times> (string \<times> gref list) list)" where
  "run file_contents findings =
     (case load_results file_contents findings init_state of
        Inl err \<Rightarrow> Inl err
      | Inr st \<Rightarrow> Inr (cluster_all (results st) st))"

text \<open>
  The states of a run: the initial state, a state after a finding was processed, and a
  state after one graph was merged into another.
\<close>

inductive reachable :: "string \<Rightarrow> state \<Rightarrow> bool" for file_contents :: string where
  reachable_init: "reachable file_contents init_state"
| reachable_finding:
    "reachable file_contents st \<Longrightarrow> process_finding file_contents r st = Inr st1
     \<Longrightarrow> reachable file_contents st1"
| reachable_update: "reachable file_contents st \<Longrightarrow> reachable file_contents (update g h st)"

section \<open>Observations and sample data\<close>

text \<open>What a constructor call or a run leaves behind, for statements about sample inputs.\<close>

definition built_graph :: "error + (heap \<times> TaintTraceGraph) \<Rightarrow> TaintTraceGraph option" where
  "built_graph res = (case res of Inl _ \<Rightarrow> None | Inr (h, g) \<Rightarrow> Some g)"

definition built_successors :: "error + (heap \<times> TaintTraceGraph) \<Rightarrow> ref list \<Rightarrow> ref list list" where
  "built_successors res rs =
     (case res of Inl _ \<Rightarrow> [] | Inr (h, g) \<Rightarrow> map (\<lambda>r. next_traces (h r)) rs)"

definition built_edges ::
  "(int \<times> string \<Rightarrow> int) \<Rightarrow> error + (heap \<times> TaintTraceGraph) \<Rightarrow> (int \<times> int) list" where
  "built_edges H res = (case res of Inl _ \<Rightarrow> [] | Inr (h, g) \<Rightarrow> edges H h g)"

definition run_clusters ::
  "error + (state \<times> (string \<times> gref list) list) \<Rightarrow> error + (string \<times> TaintTraceGraph list) list" where
  "run_clusters res =
     (case res of Inl err \<Rightarrow> Inl err
      | Inr (st, finals) \<Rightarrow> Inr (map (\<lambda>(k, gs). (k, map (graphs st) gs)) finals))"

definition run_successors ::
  "error + (state \<times> (string \<times> gref list) list) \<Rightarrow> ref list \<Rightarrow> ref list list" where
  "run_successors res rs =
     (case res of Inl _ \<Rightarrow> [] | Inr (st, finals) \<Rightarrow> map (\<lambda>r. next_traces (heap st r)) rs)"


definition final_state :: "error + (state \<times> (string \<times> gref list) list) \<Rightarrow> state" where
  "final_state res = (case res of Inl _ \<Rightarrow> init_state | Inr (st, finals) \<Rightarrow> st)"

definition run_node_keys ::
  "error + (state \<times> (string \<times> gref list) list) \<Rightarrow> ref list \<Rightarrow> (int \<times> string) list" where
  "run_node_keys res rs =
     map (\<lambda>r. (offset (heap (final_state res) r), context_of (heap (final_state res) r))) rs"

text \<open>A source text, spans on its single line, and nodes given by offset and context.\<close>

definition sample_text :: string where
  "sample_text = ''abcdefghijklmnopqrstuvwxyz''"

definition sample_span :: "int \<Rightarrow> int \<Rightarrow> span" where
  "sample_span a b =
     \<lparr> span_start = \<lparr>line = 1, col = a + 1, pos_offset = a\<rparr>,
       span_end = \<lparr>line = 1, col = b + 1, pos_offset = b\<rparr> \<rparr>"

definition sample_node :: "int \<Rightarrow> string \<Rightarrow> TaintTrace" where
  "sample_node off ctx = TaintTrace_init (sample_span off (off + int (length ctx))) ctx"

definition sample_hash :: "int \<times> string \<Rightarrow> int" where
  "sample_hash k = fst k * 31 + int (length (snd k))"

text \<open>Two lists of nodes overlap when some node of one equals some node of the other.\<close>

definition overlap :: "heap \<Rightarrow> ref list \<Rightarrow> ref list \<Rightarrow> bool" where
  "overlap h xs ys = (\<exists>a\<in>set xs. \<exists>b\<in>set ys. node_eq (h a) (h b))"

text \<open>Scenario A of the specification: B at offset 10, A at offset 5, C at offset 20.\<close>

definition scenario_A_heap :: heap where
  "scenario_A_heap =
     (heap init_state)(0 := sample_node 10 ''B'', 1 := sample_node 5 ''A'', 2 := sample_node 20 ''C'')"

text \<open>
  Two graphs in which the source of the first (node 0) and the sink of the second
  (node 3) are the same span.
\<close>

definition cross_heap :: heap where
  "cross_heap =
     (heap init_state)(0 := sample_node 0 ''a'', 1 := sample_node 10 ''k'',
                       2 := sample_node 5 ''f'', 3 := sample_node 0 ''a'')"

definition cross_g :: TaintTraceGraph where
  "cross_g = \<lparr> sources = [0], intermediates = [], sinks = [1] \<rparr>"

definition cross_other :: TaintTraceGraph where
  "cross_other = \<lparr> sources = [2], intermediates = [], sinks = [3] \<rparr>"

text \<open>A third graph, whose source (node 3) is the same span as the source of the first.\<close>

definition cross_third :: TaintTraceGraph where
  "cross_third = \<lparr> sources = [3], intermediates = [], sinks = [2] \<rparr>"

text \<open>One source followed by two sinks.\<close>

definition two_sinks_heap :: heap where
  "two_sinks_heap =
     (heap init_state)(0 := sample_node 5 ''A'', 1 := sample_node 20 ''C'', 2 := sample_node 30 ''D'')"

text \<open>
  Sample findings of one check over \<open>sample_text\<close>: two that start at the same source
  span and end in different sinks, and one whose trace has no source span.
\<close>

definition finding_1 :: finding where
  "finding_1 =
     \<lparr> check_id = ''tainted-url-host'', location = sample_span 10 11,
       dataflow = Some \<lparr> taint_source = [sample_span 0 1], intermediate_vars = [] \<rparr> \<rparr>"

definition finding_2 :: finding where
  "finding_2 =
     \<lparr> check_id = ''tainted-url-host'', location = sample_span 20 21,
       dataflow = Some \<lparr> taint_source = [sample_span 0 1], intermediate_vars = [] \<rparr> \<rparr>"

definition finding_no_source :: finding where
  "finding_no_source =
     \<lparr> check_id = ''tainted-url-host'', location = sample_span 5 6,
       dataflow = Some \<lparr> taint_source = [], intermediate_vars = [] \<rparr> \<rparr>"

section \<open>Properties of states\<close>

text \<open>
  \<open>allocates\<close> relates a state to a later one that differs from it by new node objects
  only: the new nodes have no successors and cover the file contents, and the nodes that
  existed are as they were.
\<close>

definition allocates :: "string \<Rightarrow> state \<Rightarrow> state \<Rightarrow> bool" where
  "allocates file_contents st st1 =
     (next_ref st \<le> next_ref st1
      \<and> graphs st1 = graphs st \<and> next_gref st1 = next_gref st \<and> results st1 = results st
      \<and> (\<forall>r. r < next_ref st \<or> next_ref st1 \<le> r \<longrightarrow> heap st1 r = heap st r)
      \<and> (\<forall>r. next_ref st \<le> r \<and> r < next_ref st1 \<longrightarrow>
            next_traces (heap st1 r) = [] \<and> covers file_contents (heap st1 r)))"

text \<open>
  The invariant of a run: a node has at most one successor; graphs hold references to
  existing nodes; the nodes in a sinks list have no successor; every node covers the file
  contents; the nodes in a sources or intermediates list have one successor.
\<close>

definition wf_state :: "string \<Rightarrow> state \<Rightarrow> bool" where
  "wf_state file_contents st =
     ((\<forall>r. length (next_traces (heap st r)) \<le> 1)
      \<and> (\<forall>g. \<forall>r\<in>set (sources (graphs st g) @ intermediates (graphs st g) @ sinks (graphs st g)).
            r < next_ref st)
      \<and> (\<forall>g. \<forall>r\<in>set (sinks (graphs st g)). next_traces (heap st r) = [])
      \<and> (\<forall>r. r < next_ref st \<longrightarrow> covers file_contents (heap st r))
      \<and> (\<forall>g. \<forall>r\<in>set (sources (graphs st g) @ intermediates (graphs st g)).
            length (next_traces (heap st r)) = 1))"

section \<open>Escaping\<close>

lemma replace_append: "replace old new (xs @ ys) = replace old new xs @ replace old new ys"
  by (induction xs) simp_all


lemma escape_single: "escape [c] = escape_char c"
  by (simp add: escape_def escape_char_def)

lemma escape_append: "escape (xs @ ys) = escape xs @ escape ys"
  by (simp add: escape_def replace_append)

lemma escape_Cons: "escape (c # cs) = escape_char c @ escape cs"
  using escape_append [of "[c]" cs] by (simp add: escape_single)

lemma escape_eq_concat: "escape s = concat (map escape_char s)"
  by (induction s) (simp_all add: escape_Cons, simp add: escape_def)

lemma escape_char_nonempty: "escape_char c \<noteq> []"
  by (simp add: escape_char_def)

lemma escape_empty_iff: "escape s = [] \<longleftrightarrow> s = []"
  by (cases s) (simp_all add: escape_eq_concat escape_char_nonempty)

lemma escape_take_inj:
  assumes "escape (take i s) = escape (take j s)"
  shows "take i s = take j s"
proof -
  have aux: "take a s = take b s" if "a \<le> b" and "escape (take a s) = escape (take b s)"
    for a b
  proof -
    from that(1) have "take b s = take a s @ take (b - a) (drop a s)"
      by (metis le_add_diff_inverse take_add)
    moreover from this that(2) have "escape (take (b - a) (drop a s)) = []"
      by (simp add: escape_append)
    ultimately show ?thesis
      by (simp add: escape_empty_iff)
  qed
  show ?thesis
  proof (cases "i \<le> j")
    case True
    then show ?thesis using assms by (rule aux)
  next
    case False
    then have "j \<le> i" by simp
    then have "take j s = take i s" using assms [symmetric] by (rule aux)
    then show ?thesis by simp
  qed
qed

















text \<open>
  The newline rule is not one of the four: the escaped form of a newline is \<open><br>\<close>,
  and the escaped form of that is \<open>&lt;br&gt;\<close>.
\<close>

lemma escape_newline_twice:
  "escape [CHR 0x0A] = ''<br>'' \<and> escape (escape [CHR 0x0A]) = ''&lt;br&gt;''"
  by (simp add: escape_def)

section \<open>Node identity\<close>

text \<open>
  Claim C1. For two nodes whose context is the source text covered by their span,
  \<^verbatim>\<open>a == b\<close> holds iff the offsets are equal and the raw contexts are equal; equal
  nodes have equal hashes, the hash being taken of the offset and the (escaped) context
  alone. \<^verbatim>\<open>__eq__\<close> compares the escaped contexts: escaping expands each character
  on its own, so two slices of one text that start at the same offset have equal escaped
  forms only when they are equal.
\<close>

theorem node_eq_iff_offset_and_raw_context:
  assumes "covers file_contents a" and "covers file_contents b"
  shows "(node_eq a b \<longleftrightarrow> offset a = offset b \<and> raw_context a = raw_context b)
         \<and> (node_eq a b \<longrightarrow> hash_node H a = hash_node H b)"
proof -
  have "raw_context a = raw_context b" if "offset a = offset b" and "context_of a = context_of b"
  proof -
    let ?t = "drop (py_index (length file_contents) (offset a)) file_contents"
    define i where "i = py_index (length file_contents) (pos_offset (end_pos a))
      - py_index (length file_contents) (offset a)"
    define j where "j = py_index (length file_contents) (pos_offset (end_pos b))
      - py_index (length file_contents) (offset a)"
    have ra: "raw_context a = take i ?t"
      using assms(1) by (simp add: covers_def py_slice_def i_def)
    have rb: "raw_context b = take j ?t"
      using assms(2) by (simp add: covers_def py_slice_def j_def that(1))
    from that(2) have "escape (take i ?t) = escape (take j ?t)"
      by (simp add: context_of_def ra rb)
    then have "take i ?t = take j ?t"
      by (rule escape_take_inj)
    then show ?thesis
      by (simp add: ra rb)
  qed
  then show ?thesis
    by (auto simp: node_eq_def hash_node_def context_of_def)
qed

theorem node_eq_iff_offset_and_raw_context_witness:
  "covers sample_text (TaintTrace_init (sample_span 2 5) (span_context sample_text (sample_span 2 5)))
   \<and> covers sample_text (sample_node 2 ''cde'')
   \<and> node_eq (TaintTrace_init (sample_span 2 5) (span_context sample_text (sample_span 2 5)))
         (sample_node 2 ''cde'')
   \<and> hash_node sample_hash (TaintTrace_init (sample_span 2 5) (span_context sample_text (sample_span 2 5)))
       = hash_node sample_hash (sample_node 2 ''cde'')"
proof -
  let ?a = "TaintTrace_init (sample_span 2 5) (span_context sample_text (sample_span 2 5))"
  let ?b = "sample_node 2 ''cde''"
  have ctx: "span_context sample_text (sample_span 2 5) = ''cde''"
    by (simp add: span_context_def sample_text_def sample_span_def py_slice_def py_index_def)
  have a: "covers sample_text ?a"
    by (simp add: covers_def TaintTrace_init_def span_context_def sample_span_def)
  have b: "covers sample_text ?b"
    using ctx by (simp add: covers_def sample_node_def TaintTrace_init_def span_context_def
        sample_span_def)
  have "offset ?a = offset ?b \<and> raw_context ?a = raw_context ?b"
    using ctx by (simp add: sample_node_def TaintTrace_init_def sample_span_def)
  with node_eq_iff_offset_and_raw_context [OF a b, of sample_hash] a b show ?thesis
    by blast
qed

text \<open>
  The premise of C1 matters: \<^verbatim>\<open>__eq__\<close> alone does not tell a double quote from the
  six characters of its escaped form.
\<close>

lemma node_eq_escaped_forms:
  "node_eq (sample_node 0 [CHR 0x22]) (sample_node 0 ''#quot;'')
   \<and> raw_context (sample_node 0 [CHR 0x22]) \<noteq> raw_context (sample_node 0 ''#quot;'')"
  by (simp add: node_eq_def context_of_def sample_node_def TaintTrace_init_def sample_span_def
      escape_def)

section \<open>Sets of nodes and intersection\<close>

lemma node_eq_refl: "node_eq a a"
  by (simp add: node_eq_def)

lemma node_eq_sym: "node_eq a b \<Longrightarrow> node_eq b a"
  by (simp add: node_eq_def)

lemma node_eq_trans: "node_eq a b \<Longrightarrow> node_eq b c \<Longrightarrow> node_eq a c"
  by (simp add: node_eq_def)

lemma set_add_subset: "set (set_add h s r) \<subseteq> insert r (set s)"
  by (auto simp: set_add_def)

lemma set_add_keeps: "set s \<subseteq> set (set_add h s r)"
  by (auto simp: set_add_def)

lemma set_add_covers: "\<exists>x\<in>set (set_add h s r). node_eq (h x) (h r)"
  by (auto simp: set_add_def node_eq_refl)

lemma foldl_set_add_subset: "set (foldl (set_add h) acc xs) \<subseteq> set acc \<union> set xs"
proof (induction xs arbitrary: acc)
  case Nil
  show ?case by simp
next
  case (Cons x xs)
  from Cons.IH [of "set_add h acc x"] set_add_subset [of h acc x] show ?case
    by auto
qed

lemma foldl_set_add_keeps: "set acc \<subseteq> set (foldl (set_add h) acc xs)"
proof (induction xs arbitrary: acc)
  case Nil
  show ?case by simp
next
  case (Cons x xs)
  from Cons.IH [of "set_add h acc x"] set_add_keeps [of acc h x] show ?case
    by auto
qed

lemma foldl_set_add_covers:
  "a \<in> set xs \<Longrightarrow> \<exists>x\<in>set (foldl (set_add h) acc xs). node_eq (h x) (h a)"
proof (induction xs arbitrary: acc)
  case Nil
  then show ?case by simp
next
  case (Cons y ys)
  show ?case
  proof (cases "a = y")
    case True
    from set_add_covers [of h acc y] obtain x where "x \<in> set (set_add h acc y)"
      and "node_eq (h x) (h y)" by blast
    with foldl_set_add_keeps [of "set_add h acc y" h ys] True show ?thesis
      by auto
  next
    case False
    with Cons.prems have "a \<in> set ys" by simp
    from Cons.IH [OF this, of "set_add h acc y"] show ?thesis by simp
  qed
qed

lemma py_set_subset: "set (py_set h xs) \<subseteq> set xs"
  using foldl_set_add_subset [of h "[]" xs] by (simp add: py_set_def)

lemma py_set_covers: "a \<in> set xs \<Longrightarrow> \<exists>x\<in>set (py_set h xs). node_eq (h x) (h a)"
  unfolding py_set_def by (rule foldl_set_add_covers)

lemma py_set_single: "py_set h [x] = [x]"
  by (simp add: py_set_def set_add_def)

lemma set_intersection_nonempty:
  "set_intersection h (py_set h xs) ys \<noteq> [] \<longleftrightarrow> overlap h xs ys"
proof
  assume "set_intersection h (py_set h xs) ys \<noteq> []"
  then obtain a where "a \<in> set (py_set h xs)" and "\<exists>b\<in>set ys. node_eq (h a) (h b)"
    by (auto simp: set_intersection_def filter_empty_conv)
  with py_set_subset [of h xs] show "overlap h xs ys"
    by (auto simp: overlap_def)
next
  assume "overlap h xs ys"
  then obtain a b where a: "a \<in> set xs" and b: "b \<in> set ys" and ab: "node_eq (h a) (h b)"
    by (auto simp: overlap_def)
  from py_set_covers [OF a, of h] obtain x where x: "x \<in> set (py_set h xs)"
    and xa: "node_eq (h x) (h a)" by blast
  from xa ab have "node_eq (h x) (h b)" by (rule node_eq_trans)
  with x b show "set_intersection h (py_set h xs) ys \<noteq> []"
    by (auto simp: set_intersection_def filter_empty_conv)
qed

lemma overlap_sym: "overlap h xs ys = overlap h ys xs"
  by (auto simp: overlap_def dest: node_eq_sym)

lemma intersects_overlap:
  "intersects h g other \<longleftrightarrow>
     overlap h (sources g) (sources other)
     \<or> overlap h (intermediates g) (intermediates other)
     \<or> overlap h (sinks g) (sinks other)"
  by (simp add: intersects_def set_intersection_nonempty)

text \<open>
  Claim C6. \<^verbatim>\<open>intersects\<close> is true iff the sources of the two graphs overlap, or
  their intermediates, or their sinks, equality being that of \<^verbatim>\<open>__eq__\<close>. Roles
  are never crossed: a node that is a source of one graph and a sink of the other does not
  count, as the sample pair shows.
\<close>

theorem intersects_role_by_role:
  "intersects h g other \<longleftrightarrow>
     (\<exists>a\<in>set (sources g). \<exists>b\<in>set (sources other). node_eq (h a) (h b))
     \<or> (\<exists>a\<in>set (intermediates g). \<exists>b\<in>set (intermediates other). node_eq (h a) (h b))
     \<or> (\<exists>a\<in>set (sinks g). \<exists>b\<in>set (sinks other). node_eq (h a) (h b))"
  by (simp add: intersects_overlap overlap_def)

theorem intersects_role_by_role_witness:
  "node_eq (cross_heap 0) (cross_heap 3)
   \<and> 0 \<in> set (sources cross_g) \<and> 3 \<in> set (sinks cross_other)
   \<and> \<not> intersects cross_heap cross_g cross_other"
  using intersects_role_by_role [of cross_heap cross_g cross_other]
  by (simp add: cross_heap_def cross_g_def cross_other_def node_eq_def context_of_def
      sample_node_def TaintTrace_init_def sample_span_def escape_def)

text \<open>Claim C7. \<^verbatim>\<open>g.intersects(h)\<close> and \<^verbatim>\<open>h.intersects(g)\<close> agree.\<close>

theorem intersects_symmetric: "intersects h g other = intersects h other g"
  by (simp add: intersects_overlap overlap_sym [of h "sources g"]
      overlap_sym [of h "intermediates g"] overlap_sym [of h "sinks g"])

theorem intersects_symmetric_witness:
  "intersects cross_heap cross_g cross_third \<and> intersects cross_heap cross_third cross_g"
proof -
  have "intersects cross_heap cross_g cross_third"
    by code_simp
  with intersects_symmetric [of cross_heap cross_g cross_third] show ?thesis
    by simp
qed

section \<open>Merging\<close>

text \<open>
  Claim C8. After \<^verbatim>\<open>g.update(h)\<close> each list of \<open>g\<close> is its old list followed by
  the list of \<open>h\<close>, nothing being removed, so each length is the sum of the two lengths.
\<close>

theorem update_concatenates:
  "sources (graphs (update g other st) g) = sources (graphs st g) @ sources (graphs st other)
   \<and> intermediates (graphs (update g other st) g)
       = intermediates (graphs st g) @ intermediates (graphs st other)
   \<and> sinks (graphs (update g other st) g) = sinks (graphs st g) @ sinks (graphs st other)
   \<and> length (sources (graphs (update g other st) g))
       = length (sources (graphs st g)) + length (sources (graphs st other))
   \<and> length (intermediates (graphs (update g other st) g))
       = length (intermediates (graphs st g)) + length (intermediates (graphs st other))
   \<and> length (sinks (graphs (update g other st) g))
       = length (sinks (graphs st g)) + length (sinks (graphs st other))"
  by (simp add: update_def)

section \<open>Construction of a trace graph\<close>

text \<open>
  Claim C9 (Scenario A). From sources B (offset 10) and A (offset 5), no intermediates and
  the sink C (offset 20), the constructor stores the sources as A, B; the successors of A
  are B alone, those of B are C alone, and C has none, so the edges are A to B and B to C.
  Node 0 is B, node 1 is A, node 2 is C.
\<close>

theorem scenario_A_construction:
  "built_graph (TaintTraceGraph_init scenario_A_heap [0, 1] [] [2])
     = Some \<lparr> sources = [1, 0], intermediates = [], sinks = [2] \<rparr>
   \<and> built_successors (TaintTraceGraph_init scenario_A_heap [0, 1] [] [2]) [1, 0, 2]
     = [[0], [2], []]
   \<and> built_edges H (TaintTraceGraph_init scenario_A_heap [0, 1] [] [2])
     = [(H (5, ''A''), H (10, ''B'')), (H (10, ''B''), H (20, ''C''))]"
  by code_simp

lemma set_next_traces_apply:
  "set_next_traces r nts h x = (if x = r then (h r)\<lparr>next_traces := py_set h nts\<rparr> else h x)"
  by (simp add: set_next_traces_def)

lemma only_next_traces_refl: "\<exists>n. a = a\<lparr>next_traces := n\<rparr>"
  by (rule exI [of _ "next_traces a"]) simp

lemma chain_summary:
  "(\<exists>n. chain xs h r = (h r)\<lparr>next_traces := n\<rparr>)
   \<and> (r \<notin> set (butlast xs) \<longrightarrow> chain xs h r = h r)
   \<and> (r \<in> set (butlast xs) \<longrightarrow> length (next_traces (chain xs h r)) = 1)"
proof (induction xs h rule: chain.induct)
  case (1 x y xs h)
  let ?h1 = "set_next_traces x [y] h"
  from 1 have IH1: "\<exists>n. chain (y # xs) ?h1 r = (?h1 r)\<lparr>next_traces := n\<rparr>"
    and IH2: "r \<notin> set (butlast (y # xs)) \<Longrightarrow> chain (y # xs) ?h1 r = ?h1 r"
    and IH3: "r \<in> set (butlast (y # xs)) \<Longrightarrow> length (next_traces (chain (y # xs) ?h1 r)) = 1"
    by blast+
  have step: "?h1 r = (if r = x then (h x)\<lparr>next_traces := [y]\<rparr> else h r)"
    by (simp add: set_next_traces_apply py_set_single)
  have "\<exists>n. chain (x # y # xs) h r = (h r)\<lparr>next_traces := n\<rparr>"
  proof -
    from IH1 obtain n where "chain (y # xs) ?h1 r = (?h1 r)\<lparr>next_traces := n\<rparr>" ..
    then have "chain (x # y # xs) h r = (h r)\<lparr>next_traces := n\<rparr>"
      by (simp add: step)
    then show ?thesis ..
  qed
  moreover have "chain (x # y # xs) h r = h r" if "r \<notin> set (butlast (x # y # xs))"
    using that IH2 step by (simp split: if_splits)
  moreover have "length (next_traces (chain (x # y # xs) h r)) = 1"
    if "r \<in> set (butlast (x # y # xs))"
  proof (cases "r \<in> set (butlast (y # xs))")
    case True
    then show ?thesis using IH3 by simp
  next
    case False
    with that have "r = x" by (simp split: if_splits)
    with False IH2 step show ?thesis by simp
  qed
  ultimately show ?case by blast
next
  case (2 x h)
  show ?case using only_next_traces_refl [of "h r"] by simp
next
  case (3 h)
  show ?case using only_next_traces_refl [of "h r"] by simp
qed


text \<open>
  The stored lists are in ascending order of offset: no node is \<^verbatim>\<open>__lt__\<close> a node
  before it.
\<close>

lemma sorted_nodes_ascending: "sorted (map (\<lambda>r. offset (h r)) (sorted_nodes h xs))"
  by (simp add: sorted_nodes_def)

lemma sorted_nodes_not_lt:
  assumes "i < j" and "j < length (sorted_nodes h xs)"
  shows "\<not> node_lt (h (sorted_nodes h xs ! j)) (h (sorted_nodes h xs ! i))"
proof -
  let ?ys = "map (\<lambda>r. offset (h r)) (sorted_nodes h xs)"
  from assms have "?ys ! i \<le> ?ys ! j"
    using sorted_nodes_ascending [of h xs] by (intro sorted_nth_mono) simp_all
  with assms show ?thesis by (simp add: node_lt_def)
qed

lemma set_sorted_nodes: "set (sorted_nodes h xs) = set xs"
  by (simp add: sorted_nodes_def)

lemma length_sorted_nodes: "length (sorted_nodes h xs) = length xs"
  by (simp add: sorted_nodes_def)

lemma sorted_nodes_empty: "sorted_nodes h xs = [] \<longleftrightarrow> xs = []"
  using length_sorted_nodes [of h xs] by (metis length_0_conv)

lemma last_in_butlast_or_last: "xs \<noteq> [] \<Longrightarrow> r \<in> set xs \<Longrightarrow> r \<in> set (butlast xs) \<or> r = last xs"
  by (metis append_butlast_last_id in_set_conv_decomp rotate1.simps(2) set_ConsD set_rotate1)

text \<open>What a successful constructor call does to the store.\<close>

lemma TaintTraceGraph_init_succeeds:
  assumes "sources0 \<noteq> []" and "sinks0 \<noteq> []"
  shows "\<exists>h1. TaintTraceGraph_init h sources0 intermediates0 sinks0 =
           Inr (h1, \<lparr> sources = sorted_nodes h sources0,
                      intermediates = sorted_nodes h intermediates0,
                      sinks = sorted_nodes h sinks0 \<rparr>)"
  using assms by (simp add: TaintTraceGraph_init_def Let_def sorted_nodes_empty)

lemma TaintTraceGraph_init_Inr:
  assumes "TaintTraceGraph_init h sources0 intermediates0 sinks0 = Inr (h1, g)"
  shows "sources0 \<noteq> []" and "sinks0 \<noteq> []"
    and "g = \<lparr> sources = sorted_nodes h sources0, intermediates = sorted_nodes h intermediates0,
               sinks = sorted_nodes h sinks0 \<rparr>"
  using assms by (auto simp: TaintTraceGraph_init_def Let_def sorted_nodes_empty split: if_splits)

lemma TaintTraceGraph_init_heap:
  assumes "TaintTraceGraph_init h sources0 intermediates0 sinks0 = Inr (h1, g)"
  shows "\<exists>n. h1 r = (h r)\<lparr>next_traces := n\<rparr>"
    and "r \<notin> set sources0 \<Longrightarrow> r \<notin> set intermediates0 \<Longrightarrow> h1 r = h r"
    and "r \<in> set sources0 \<union> set intermediates0 \<Longrightarrow> length (next_traces (h1 r)) = 1"
proof -
  define srcs where "srcs = sorted_nodes h sources0"
  define ims where "ims = sorted_nodes h intermediates0"
  define sks where "sks = sorted_nodes h sinks0"
  define ha where "ha = chain srcs h"
  define hb where "hb = set_next_traces (last srcs) [if ims \<noteq> [] then hd ims else hd sks] ha"
  define hc where "hc = chain ims hb"
  define hd' where "hd' = (if ims \<noteq> [] then set_next_traces (last ims) [hd sks] hc else hc)"
  have srcs: "srcs \<noteq> []" "set srcs = set sources0"
    using TaintTraceGraph_init_Inr(1) [OF assms] by (simp_all add: srcs_def sorted_nodes_empty set_sorted_nodes)
  have ims: "set ims = set intermediates0"
    by (simp add: ims_def set_sorted_nodes)
  have h1: "h1 = hd'"
    using assms srcs(1)
    by (auto simp: TaintTraceGraph_init_def Let_def srcs_def ims_def sks_def ha_def hb_def hc_def
        hd'_def split: if_splits)
  note a = chain_summary [of srcs h r, folded ha_def]
  have b: "hb r = (if r = last srcs then (ha r)\<lparr>next_traces := [if ims \<noteq> [] then hd ims else hd sks]\<rparr> else ha r)"
    by (simp add: hb_def set_next_traces_apply py_set_single)
  note c = chain_summary [of ims hb r, folded hc_def]
  have d: "hd' r = (if ims \<noteq> [] \<and> r = last ims then (hc r)\<lparr>next_traces := [hd sks]\<rparr> else hc r)"
    by (simp add: hd'_def set_next_traces_apply py_set_single)
  from a obtain na where na: "ha r = (h r)\<lparr>next_traces := na\<rparr>" by blast
  from c obtain nc where nc: "hc r = (hb r)\<lparr>next_traces := nc\<rparr>" by blast
  show "\<exists>n. h1 r = (h r)\<lparr>next_traces := n\<rparr>"
    unfolding h1 d nc b na
    by (cases "ims \<noteq> [] \<and> r = last ims"; cases "r = last srcs") auto
  show "h1 r = h r" if "r \<notin> set sources0" "r \<notin> set intermediates0"
  proof -
    from that srcs have "r \<notin> set (butlast srcs)" "r \<noteq> last srcs"
      by (auto dest: in_set_butlastD)
    moreover from that ims have "r \<notin> set (butlast ims)" "ims \<noteq> [] \<Longrightarrow> r \<noteq> last ims"
      by (auto dest: in_set_butlastD)
    ultimately show ?thesis
      unfolding h1 using a b c d by auto
  qed
  show "length (next_traces (h1 r)) = 1" if "r \<in> set sources0 \<union> set intermediates0"
  proof -
    have hb1: "length (next_traces (hb r)) = 1" if "r \<in> set srcs"
      using last_in_butlast_or_last [OF srcs(1) that] a b by auto
    have hc1: "length (next_traces (hc r)) = 1" if "r \<in> set srcs \<or> r \<in> set (butlast ims)"
      using that hb1 c by (cases "r \<in> set (butlast ims)") auto
    show ?thesis
    proof (cases "ims \<noteq> [] \<and> r = last ims")
      case True
      then show ?thesis unfolding h1 d by simp
    next
      case False
      have "r \<in> set srcs \<or> r \<in> set (butlast ims)"
      proof (cases "r \<in> set srcs")
        case True
        then show ?thesis ..
      next
        case nsrc: False
        with that srcs(2) ims have r: "r \<in> set ims" by simp
        then have "ims \<noteq> []" by auto
        with r False last_in_butlast_or_last [of ims r] show ?thesis by blast
      qed
      with hc1 False show ?thesis unfolding h1 d by auto
    qed
  qed
qed

lemma length_to_mermaid_node: "length (to_mermaid_node H h r) = length (next_traces (h r))"
  by (simp add: to_mermaid_node_def)

lemma length_concat_const:
  "\<forall>x\<in>set xs. length (f x) = k \<Longrightarrow> length (concat (map f xs)) = k * length xs"
  by (induction xs) simp_all

lemma length_edges:
  assumes "\<forall>r\<in>set (sources g @ intermediates g). length (next_traces (h r)) = 1"
    and "\<forall>r\<in>set (sinks g). next_traces (h r) = []"
  shows "length (edges H h g) = length (sources g) + length (intermediates g)"
proof -
  have a: "length (concat (map (to_mermaid_node H h) (sources g))) = 1 * length (sources g)"
    using assms(1) by (intro length_concat_const) (simp add: length_to_mermaid_node)
  have b: "length (concat (map (to_mermaid_node H h) (intermediates g)))
      = 1 * length (intermediates g)"
    using assms(1) by (intro length_concat_const) (simp add: length_to_mermaid_node)
  have c: "length (concat (map (to_mermaid_node H h) (sinks g))) = 0 * length (sinks g)"
    using assms(2) by (intro length_concat_const) (simp add: length_to_mermaid_node)
  show ?thesis
    unfolding edges_def using a b c by simp
qed

text \<open>
  At the level of the constructor: from at least one source and at least one sink, the
  sinks being nodes without successors that are not among the sources and intermediates,
  the graph emits one edge for each entry of its sources and intermediates and none for
  its sinks.
\<close>

lemma TaintTraceGraph_init_edge_count:
  assumes "sources0 \<noteq> []" and "sinks0 \<noteq> []"
    and "\<forall>r\<in>set sinks0. r \<notin> set sources0 \<and> r \<notin> set intermediates0 \<and> next_traces (h r) = []"
  shows "\<exists>h1 g. TaintTraceGraph_init h sources0 intermediates0 sinks0 = Inr (h1, g)
           \<and> length (edges H h1 g) = length (sources g) + length (intermediates g)"
proof -
  from TaintTraceGraph_init_succeeds [OF assms(1,2)] obtain h1 g
    where init: "TaintTraceGraph_init h sources0 intermediates0 sinks0 = Inr (h1, g)"
    by blast
  note g = TaintTraceGraph_init_Inr(3) [OF init]
  have "\<forall>r\<in>set (sources g @ intermediates g). length (next_traces (h1 r)) = 1"
    using TaintTraceGraph_init_heap(3) [OF init] by (simp add: g set_sorted_nodes)
  moreover have "\<forall>r\<in>set (sinks g). next_traces (h1 r) = []"
    using TaintTraceGraph_init_heap(2) [OF init] assms(3) by (simp add: g set_sorted_nodes)
  ultimately have "length (edges H h1 g) = length (sources g) + length (intermediates g)"
    by (rule length_edges)
  with init show ?thesis by auto
qed

text \<open>
  The constructor links the chain to the first sink only. The program passes it one sink;
  called with one source A and the two sinks C, D it gives the single edge from A to C.
\<close>

lemma two_sinks_edge_count:
  "built_graph (TaintTraceGraph_init two_sinks_heap [0] [] [1, 2])
     = Some \<lparr> sources = [0], intermediates = [], sinks = [1, 2] \<rparr>
   \<and> built_edges sample_hash (TaintTraceGraph_init two_sinks_heap [0] [] [1, 2])
     = [(sample_hash (5, ''A''), sample_hash (20, ''C''))]"
  by code_simp

section \<open>Creating the nodes of a finding\<close>

lemma allocatesD:
  assumes "allocates c st st1"
  shows "next_ref st \<le> next_ref st1"
    and "graphs st1 = graphs st" and "next_gref st1 = next_gref st" and "results st1 = results st"
    and "\<And>r. r < next_ref st \<Longrightarrow> heap st1 r = heap st r"
    and "\<And>r. next_ref st1 \<le> r \<Longrightarrow> heap st1 r = heap st r"
    and "\<And>r. next_ref st \<le> r \<Longrightarrow> r < next_ref st1 \<Longrightarrow> next_traces (heap st1 r) = []"
    and "\<And>r. next_ref st \<le> r \<Longrightarrow> r < next_ref st1 \<Longrightarrow> covers c (heap st1 r)"
  using assms by (auto simp: allocates_def)

lemma allocatesI:
  assumes "next_ref st \<le> next_ref st1"
    and "graphs st1 = graphs st" and "next_gref st1 = next_gref st" and "results st1 = results st"
    and "\<And>r. r < next_ref st \<Longrightarrow> heap st1 r = heap st r"
    and "\<And>r. next_ref st1 \<le> r \<Longrightarrow> heap st1 r = heap st r"
    and "\<And>r. next_ref st \<le> r \<Longrightarrow> r < next_ref st1 \<Longrightarrow> next_traces (heap st1 r) = []"
    and "\<And>r. next_ref st \<le> r \<Longrightarrow> r < next_ref st1 \<Longrightarrow> covers c (heap st1 r)"
  shows "allocates c st st1"
  using assms by (auto simp: allocates_def)

lemma allocates_refl: "allocates c st st"
  by (rule allocatesI) simp_all

lemma allocates_trans:
  assumes "allocates c st st1" and "allocates c st1 st2"
  shows "allocates c st st2"
proof (rule allocatesI)
  note a = allocatesD [OF assms(1)] and b = allocatesD [OF assms(2)]
  show "next_ref st \<le> next_ref st2"
    using a(1) b(1) by simp
  show "graphs st2 = graphs st" "next_gref st2 = next_gref st" "results st2 = results st"
    using a(2-4) b(2-4) by simp_all
  show "heap st2 r = heap st r" if "r < next_ref st" for r
  proof -
    from that a(1) have "r < next_ref st1" by simp
    then have "heap st2 r = heap st1 r" by (rule b(5))
    with a(5) [OF that] show ?thesis by simp
  qed
  show "heap st2 r = heap st r" if "next_ref st2 \<le> r" for r
  proof -
    from that b(1) have "next_ref st1 \<le> r" by simp
    then have "heap st1 r = heap st r" by (rule a(6))
    with b(6) [OF that] show ?thesis by simp
  qed
  show "next_traces (heap st2 r) = []" if "next_ref st \<le> r" "r < next_ref st2" for r
  proof (cases "r < next_ref st1")
    case True
    with b(5) [OF True] a(7) [OF that(1) True] show ?thesis by simp
  next
    case False
    then have "next_ref st1 \<le> r" by simp
    then show ?thesis using that(2) by (rule b(7))
  qed
  show "covers c (heap st2 r)" if "next_ref st \<le> r" "r < next_ref st2" for r
  proof (cases "r < next_ref st1")
    case True
    with b(5) [OF True] a(8) [OF that(1) True] show ?thesis by simp
  next
    case False
    then have "next_ref st1 \<le> r" by simp
    then show ?thesis using that(2) by (rule b(8))
  qed
qed

lemma covers_new_node: "covers c (TaintTrace_init r (span_context c r))"
  by (simp add: covers_def TaintTrace_init_def span_context_def)

lemma new_TaintTrace_allocates:
  assumes "new_TaintTrace c r st = (x, st1)"
  shows "allocates c st st1" and "x = next_ref st" and "next_ref st1 = Suc (next_ref st)"
    and "heap st1 x = TaintTrace_init r (span_context c r)"
proof -
  from assms have x: "x = next_ref st"
    and st1: "st1 = st\<lparr>heap := (heap st)(next_ref st := TaintTrace_init r (span_context c r)),
                       next_ref := Suc (next_ref st)\<rparr>"
    by (auto simp: new_TaintTrace_def)
  show "x = next_ref st" by (rule x)
  show "next_ref st1 = Suc (next_ref st)" by (simp add: st1)
  show "heap st1 x = TaintTrace_init r (span_context c r)" by (simp add: st1 x)
  show "allocates c st st1"
  proof (rule allocatesI)
    fix q assume "next_ref st \<le> q" "q < next_ref st1"
    then have q: "q = next_ref st" by (simp add: st1)
    show "next_traces (heap st1 q) = []"
      by (simp add: st1 q TaintTrace_init_def)
    show "covers c (heap st1 q)"
      by (simp add: st1 q covers_new_node)
  qed (simp_all add: st1)
qed

lemma make_traces_allocates:
  assumes "make_traces c rs st = (xs, st1)"
  shows "allocates c st st1" and "next_ref st1 = next_ref st + length rs"
    and "xs = [next_ref st ..< next_ref st1]"
    and "map (heap st1) xs = map (\<lambda>r. TaintTrace_init r (span_context c r)) rs"
  using assms
proof (induction rs arbitrary: st xs st1)
  case Nil
  {
    case 1 then show ?case by (simp add: allocates_refl)
  next
    case 2 then show ?case by simp
  next
    case 3 then show ?case by simp
  next
    case 4 then show ?case by simp
  }
next
  case (Cons r rs)
  {
    fix st xs st1
    assume prem: "make_traces c (r # rs) st = (xs, st1)"
    obtain x sta where new: "new_TaintTrace c r st = (x, sta)"
      by (cases "new_TaintTrace c r st")
    obtain ys where rest: "make_traces c rs sta = (ys, st1)" and xs: "xs = x # ys"
      using prem new by (cases "make_traces c rs sta") simp
    note n = new_TaintTrace_allocates [OF new]
    note ih = Cons.IH [OF rest]
    have A: "allocates c st st1"
      using n(1) ih(1) by (rule allocates_trans)
    have B: "next_ref st1 = next_ref st + length (r # rs)"
      using n(3) ih(2) by simp
    have lt: "next_ref st < next_ref st1"
      using n(3) ih(2) by simp
    have "ys = [Suc (next_ref st) ..< next_ref st1]"
      using ih(3) by (simp only: n(3))
    then have C: "xs = [next_ref st ..< next_ref st1]"
      using upt_conv_Cons [OF lt] by (simp add: xs n(2))
    have "heap st1 x = heap sta x"
      using allocatesD(5) [OF ih(1), of x] n(2,3) by simp
    then have D: "map (heap st1) xs = map (\<lambda>r. TaintTrace_init r (span_context c r)) (r # rs)"
      using n(4) ih(4) by (simp add: xs)
    note A B C D
  }
  note step = this
  {
    case 1 then show ?case by (rule step(1))
  next
    case 2 then show ?case by (rule step(2))
  next
    case 3 then show ?case by (rule step(3))
  next
    case 4 then show ?case by (rule step(4))
  }
qed

lemma associate_info_allocates:
  assumes "associate_info rs c st = (ys, st1)"
  shows "allocates c st st1"
    and "set ys \<subseteq> {next_ref st ..< next_ref st1}"
    and "length ys \<le> length rs"
    and "(\<forall>s\<in>set rs. escape (span_context c s) = ''.'') \<Longrightarrow> ys = []"
proof -
  obtain xs where mk: "make_traces c rs st = (xs, st1)"
    and ys: "ys = filter (\<lambda>x. context_of (heap st1 x) \<noteq> ''.'') xs"
    using assms by (auto simp: associate_info_def split: prod.splits)
  note m = make_traces_allocates [OF mk]
  from m(1) show "allocates c st st1" .
  have "set ys \<subseteq> set xs" by (auto simp: ys)
  then show "set ys \<subseteq> {next_ref st ..< next_ref st1}"
    by (simp add: m(3))
  have "length xs = length rs"
    using arg_cong [OF m(4), of length] by simp
  moreover have "length ys \<le> length xs" by (simp add: ys)
  ultimately show "length ys \<le> length rs" by simp
  show "ys = []" if "\<forall>s\<in>set rs. escape (span_context c s) = ''.''"
  proof -
    have "\<forall>n\<in>set (map (\<lambda>r. TaintTrace_init r (span_context c r)) rs). context_of n = ''.''"
      using that by (simp add: context_of_def TaintTrace_init_def)
    then have "\<forall>n\<in>set (map (heap st1) xs). context_of n = ''.''"
      by (simp only: m(4))
    then show ?thesis
      by (simp add: ys filter_empty_conv)
  qed
qed

lemma format_source_allocates:
  assumes "format_source r t c st = ((b, i, e), st1)"
  shows "allocates c st st1"
    and "set b \<union> set i \<union> set e \<subseteq> {next_ref st ..< next_ref st1}"
    and "set e \<inter> (set b \<union> set i) = {}"
    and "length e \<le> 1"
    and "(\<forall>s\<in>set (taint_source t). escape (span_context c s) = ''.'') \<Longrightarrow> b = []"
proof -
  obtain sta stb where a: "associate_info (taint_source t) c st = (b, sta)"
    and b: "associate_info (intermediate_vars t) c sta = (i, stb)"
    and c: "associate_info [location r] c stb = (e, st1)"
    using assms by (auto simp: format_source_def split: prod.splits)
  note A = associate_info_allocates [OF a]
  note B = associate_info_allocates [OF b]
  note C = associate_info_allocates [OF c]
  show "allocates c st st1"
    using A(1) B(1) C(1) by (blast intro: allocates_trans)
  have le: "next_ref st \<le> next_ref sta" "next_ref sta \<le> next_ref stb" "next_ref stb \<le> next_ref st1"
    using A(1) B(1) C(1) by (simp_all add: allocatesD(1))
  show "set b \<union> set i \<union> set e \<subseteq> {next_ref st ..< next_ref st1}"
    using A(2) B(2) C(2) le by auto
  show "set e \<inter> (set b \<union> set i) = {}"
    using A(2) B(2) C(2) le by fastforce
  show "length e \<le> 1" using C(3) by simp
  show "b = []" if "\<forall>s\<in>set (taint_source t). escape (span_context c s) = ''.''"
    using A(4) that by simp
qed

section \<open>The invariant of a run\<close>

lemma wf_stateD:
  assumes "wf_state c st"
  shows "\<And>r. length (next_traces (heap st r)) \<le> 1"
    and "\<And>g r. r \<in> set (sources (graphs st g)) \<Longrightarrow> r < next_ref st"
    and "\<And>g r. r \<in> set (intermediates (graphs st g)) \<Longrightarrow> r < next_ref st"
    and "\<And>g r. r \<in> set (sinks (graphs st g)) \<Longrightarrow> r < next_ref st"
    and "\<And>g r. r \<in> set (sinks (graphs st g)) \<Longrightarrow> next_traces (heap st r) = []"
    and "\<And>r. r < next_ref st \<Longrightarrow> covers c (heap st r)"
    and "\<And>g r. r \<in> set (sources (graphs st g)) \<Longrightarrow> length (next_traces (heap st r)) = 1"
    and "\<And>g r. r \<in> set (intermediates (graphs st g)) \<Longrightarrow> length (next_traces (heap st r)) = 1"
  using assms by (auto simp: wf_state_def)

lemma wf_stateI:
  assumes "\<And>r. length (next_traces (heap st r)) \<le> 1"
    and "\<And>g r. r \<in> set (sources (graphs st g)) \<Longrightarrow> r < next_ref st"
    and "\<And>g r. r \<in> set (intermediates (graphs st g)) \<Longrightarrow> r < next_ref st"
    and "\<And>g r. r \<in> set (sinks (graphs st g)) \<Longrightarrow> r < next_ref st"
    and "\<And>g r. r \<in> set (sinks (graphs st g)) \<Longrightarrow> next_traces (heap st r) = []"
    and "\<And>r. r < next_ref st \<Longrightarrow> covers c (heap st r)"
    and "\<And>g r. r \<in> set (sources (graphs st g)) \<Longrightarrow> length (next_traces (heap st r)) = 1"
    and "\<And>g r. r \<in> set (intermediates (graphs st g)) \<Longrightarrow> length (next_traces (heap st r)) = 1"
  shows "wf_state c st"
  using assms by (auto simp: wf_state_def)

lemma wf_init_state: "wf_state c init_state"
  by (rule wf_stateI) (simp_all add: init_state_def TaintTrace_init_def)

lemma wf_update:
  assumes "wf_state c st"
  shows "wf_state c (update g h st)"
proof (rule wf_stateI)
  note w = wf_stateD [OF assms]
  show "length (next_traces (heap (update g h st) r)) \<le> 1" for r
    using w(1) by (simp add: update_def)
  show "r < next_ref (update g h st)" if "r \<in> set (sources (graphs (update g h st) g'))" for g' r
    using that w(2) by (auto simp: update_def split: if_splits)
  show "r < next_ref (update g h st)" if "r \<in> set (intermediates (graphs (update g h st) g'))" for g' r
    using that w(3) by (auto simp: update_def split: if_splits)
  show "r < next_ref (update g h st)" if "r \<in> set (sinks (graphs (update g h st) g'))" for g' r
    using that w(4) by (auto simp: update_def split: if_splits)
  show "next_traces (heap (update g h st) r) = []" if "r \<in> set (sinks (graphs (update g h st) g'))" for g' r
    using that w(5) by (auto simp: update_def split: if_splits)
  show "covers c (heap (update g h st) r)" if "r < next_ref (update g h st)" for r
    using that w(6) by (simp add: update_def)
  show "length (next_traces (heap (update g h st) r)) = 1"
    if "r \<in> set (sources (graphs (update g h st) g'))" for g' r
    using that w(7) by (auto simp: update_def split: if_splits)
  show "length (next_traces (heap (update g h st) r)) = 1"
    if "r \<in> set (intermediates (graphs (update g h st) g'))" for g' r
    using that w(8) by (auto simp: update_def split: if_splits)
qed

lemma covers_next_traces: "covers c (a\<lparr>next_traces := n\<rparr>) = covers c a"
  by (simp add: covers_def)

text \<open>The state after a finding with a dataflow trace was processed.\<close>

lemma process_finding_Some:
  assumes "process_finding c r st = Inr st2" and "dataflow r = Some t"
  obtains b i e st1 h g where "format_source r t c st = ((b, i, e), st1)"
    and "TaintTraceGraph_init (heap st1) b i e = Inr (h, g)"
    and "st2 = st1\<lparr>heap := h, graphs := (graphs st1)(next_gref st1 := g),
                   next_gref := Suc (next_gref st1),
                   results := append_result (check_id r) (next_gref st1) (results st1)\<rparr>"
  using assms
  by (auto simp: process_finding_def split: prod.splits sum.splits)

lemma process_finding_wf:
  assumes wf: "wf_state c st" and step: "process_finding c r st = Inr st2"
  shows "wf_state c st2"
proof (cases "dataflow r")
  case None
  with step wf show ?thesis by (simp add: process_finding_def)
next
  case (Some t)
  from process_finding_Some [OF step Some] obtain b i e st1 h g
    where fs: "format_source r t c st = ((b, i, e), st1)"
      and init: "TaintTraceGraph_init (heap st1) b i e = Inr (h, g)"
      and st2: "st2 = st1\<lparr>heap := h, graphs := (graphs st1)(next_gref st1 := g),
                   next_gref := Suc (next_gref st1),
                   results := append_result (check_id r) (next_gref st1) (results st1)\<rparr>"
    by blast
  note w = wf_stateD [OF wf]
  note F = format_source_allocates [OF fs]
  note A = allocatesD [OF F(1)]
  note I = TaintTraceGraph_init_heap [OF init]
  note g = TaintTraceGraph_init_Inr(3) [OF init]
  have new: "next_ref st \<le> x \<and> x < next_ref st1" if "x \<in> set b \<union> set i \<union> set e" for x
    using that F(2) by auto
  have old: "h x = heap st x" if "x < next_ref st" for x
  proof -
    from that new [of x] have "x \<notin> set b" "x \<notin> set i" by auto
    then have "h x = heap st1 x" by (rule I(2))
    with A(5) [OF that] show ?thesis by simp
  qed
  have sink_new: "next_traces (h x) = []" if "x \<in> set e" for x
  proof -
    from that F(3) have "x \<notin> set b" "x \<notin> set i" by auto
    then have "h x = heap st1 x" by (rule I(2))
    moreover from that new [of x] have "next_traces (heap st1 x) = []"
      by (intro A(7)) auto
    ultimately show ?thesis by simp
  qed
  have graphs: "graphs st2 g' = (if g' = next_gref st1 then g else graphs st g')" for g'
    by (simp add: st2 A(2))
  show ?thesis
  proof (rule wf_stateI)
    show "length (next_traces (heap st2 x)) \<le> 1" for x
    proof (cases "x \<in> set b \<union> set i")
      case True
      with I(3) [of x] show ?thesis by (simp add: st2)
    next
      case False
      then have eq: "h x = heap st1 x" using I(2) [of x] by simp
      show ?thesis
      proof (cases "next_ref st \<le> x \<and> x < next_ref st1")
        case True
        then have "next_traces (heap st1 x) = []" by (intro A(7)) auto
        with eq show ?thesis by (simp add: st2)
      next
        case False
        then have "heap st1 x = heap st x" using A(5) [of x] A(6) [of x] by auto
        with eq w(1) [of x] show ?thesis by (simp add: st2)
      qed
    qed
    show "x < next_ref st2" if "x \<in> set (sources (graphs st2 g'))" for g' x
    proof (cases "g' = next_gref st1")
      case True
      with that have "x \<in> set b" by (simp add: graphs g set_sorted_nodes)
      with new [of x] show ?thesis by (simp add: st2)
    next
      case False
      with that have "x \<in> set (sources (graphs st g'))" by (simp add: graphs)
      from w(2) [OF this] A(1) show ?thesis by (simp add: st2)
    qed
    show "x < next_ref st2" if "x \<in> set (intermediates (graphs st2 g'))" for g' x
    proof (cases "g' = next_gref st1")
      case True
      with that have "x \<in> set i" by (simp add: graphs g set_sorted_nodes)
      with new [of x] show ?thesis by (simp add: st2)
    next
      case False
      with that have "x \<in> set (intermediates (graphs st g'))" by (simp add: graphs)
      from w(3) [OF this] A(1) show ?thesis by (simp add: st2)
    qed
    show "x < next_ref st2" if "x \<in> set (sinks (graphs st2 g'))" for g' x
    proof (cases "g' = next_gref st1")
      case True
      with that have "x \<in> set e" by (simp add: graphs g set_sorted_nodes)
      with new [of x] show ?thesis by (simp add: st2)
    next
      case False
      with that have "x \<in> set (sinks (graphs st g'))" by (simp add: graphs)
      from w(4) [OF this] A(1) show ?thesis by (simp add: st2)
    qed
    show "next_traces (heap st2 x) = []" if "x \<in> set (sinks (graphs st2 g'))" for g' x
    proof (cases "g' = next_gref st1")
      case True
      with that have "x \<in> set e" by (simp add: graphs g set_sorted_nodes)
      then show ?thesis using sink_new by (simp add: st2)
    next
      case False
      with that have x: "x \<in> set (sinks (graphs st g'))" by (simp add: graphs)
      from w(4) [OF x] have "h x = heap st x" by (rule old)
      with w(5) [OF x] show ?thesis by (simp add: st2)
    qed
    show "covers c (heap st2 x)" if "x < next_ref st2" for x
    proof -
      from I(1) [of x] obtain n where n: "h x = (heap st1 x)\<lparr>next_traces := n\<rparr>" ..
      have "covers c (heap st1 x)"
      proof (cases "x < next_ref st")
        case True
        with A(5) [OF True] w(6) [OF True] show ?thesis by simp
      next
        case False
        with that show ?thesis by (intro A(8)) (simp_all add: st2)
      qed
      then show ?thesis by (simp add: st2 n covers_next_traces)
    qed
    show "length (next_traces (heap st2 x)) = 1" if "x \<in> set (sources (graphs st2 g'))" for g' x
    proof (cases "g' = next_gref st1")
      case True
      with that have "x \<in> set b" by (simp add: graphs g set_sorted_nodes)
      with I(3) [of x] show ?thesis by (simp add: st2)
    next
      case False
      with that have x: "x \<in> set (sources (graphs st g'))" by (simp add: graphs)
      from w(2) [OF x] have "h x = heap st x" by (rule old)
      with w(7) [OF x] show ?thesis by (simp add: st2)
    qed
    show "length (next_traces (heap st2 x)) = 1" if "x \<in> set (intermediates (graphs st2 g'))" for g' x
    proof (cases "g' = next_gref st1")
      case True
      with that have "x \<in> set i" by (simp add: graphs g set_sorted_nodes)
      with I(3) [of x] show ?thesis by (simp add: st2)
    next
      case False
      with that have x: "x \<in> set (intermediates (graphs st g'))" by (simp add: graphs)
      from w(3) [OF x] have "h x = heap st x" by (rule old)
      with w(8) [OF x] show ?thesis by (simp add: st2)
    qed
  qed
qed

lemma reachable_wf: "reachable c st \<Longrightarrow> wf_state c st"
proof (induction rule: reachable.induct)
  case reachable_init
  show ?case by (rule wf_init_state)
next
  case (reachable_finding st r st1)
  then show ?case by (simp add: process_finding_wf)
next
  case (reachable_update st g h)
  then show ?case by (simp add: wf_update)
qed

text \<open>
  In every state of a run, a graph, merged or not, emits one edge for each entry of its
  sources and intermediates and none for its sinks.
\<close>

lemma reachable_edge_count:
  assumes "reachable c st"
  shows "length (edges H (heap st) (graphs st g))
         = length (sources (graphs st g)) + length (intermediates (graphs st g))"
proof (rule length_edges)
  note w = wf_stateD [OF reachable_wf [OF assms]]
  show "\<forall>r\<in>set (sources (graphs st g) @ intermediates (graphs st g)).
          length (next_traces (heap st r)) = 1"
    using w(7) w(8) by auto
  show "\<forall>r\<in>set (sinks (graphs st g)). next_traces (heap st r) = []"
    using w(5) by blast
qed

section \<open>The driver\<close>

text \<open>Every state that the driver passes through is a state of a run.\<close>

lemma load_results_reachable:
  "reachable c st \<Longrightarrow> load_results c fs st = Inr st1 \<Longrightarrow> reachable c st1"
proof (induction fs arbitrary: st)
  case Nil
  then show ?case by simp
next
  case (Cons r fs)
  from Cons.prems(2) obtain sta where step: "process_finding c r st = Inr sta"
    and rest: "load_results c fs sta = Inr st1"
    by (auto split: sum.splits)
  from Cons.prems(1) step have "reachable c sta" by (rule reachable_finding)
  then show ?case using rest by (rule Cons.IH)
qed

lemma absorb_reachable:
  "reachable c (fst p) \<Longrightarrow> reachable c (fst (absorb g hs p))"
proof (induction hs arbitrary: p)
  case Nil
  then show ?case by (cases p) simp
next
  case (Cons h hs)
  obtain st seen where p: "p = (st, seen)" by (cases p)
  with Cons.prems have r: "reachable c st" by simp
  then have r': "reachable c (update g h st)" by (rule reachable_update)
  from Cons.IH [of "(st, seen)"] r have a: "reachable c (fst (absorb g hs (st, seen)))"
    by simp
  from Cons.IH [of "(update g h st, seen @ [h])"] r'
  have b: "reachable c (fst (absorb g hs (update g h st, seen @ [h])))"
    by simp
  from a b show ?case by (auto simp: p)
qed

lemma cluster_loop_reachable:
  "reachable c (fst p) \<Longrightarrow> reachable c (fst (cluster_loop all gs p))"
proof (induction gs arbitrary: p)
  case Nil
  then show ?case by (cases p) auto
next
  case (Cons g gs)
  obtain st seen final where p: "p = (st, seen, final)" by (cases p)
  with Cons.prems have r: "reachable c st" by simp
  show ?case
  proof (cases "g \<in> set seen")
    case True
    with Cons.IH [of "(st, seen, final)"] r show ?thesis by (simp add: p)
  next
    case False
    obtain st1 seen1 where ab: "absorb g all (st, seen) = (st1, seen1)"
      by (cases "absorb g all (st, seen)")
    from absorb_reachable [of c "(st, seen)" g all] r ab have "reachable c st1" by simp
    with Cons.IH [of "(st1, seen1, final @ [g])"] False ab show ?thesis
      by (simp add: p)
  qed
qed

lemma cluster_all_reachable:
  "reachable c st \<Longrightarrow> reachable c (fst (cluster_all rs st))"
proof (induction rs arbitrary: st)
  case Nil
  then show ?case by simp
next
  case (Cons kv rs)
  obtain res gs where kv: "kv = (res, gs)" by (cases kv)
  obtain st1 seen final where cl: "cluster_loop gs gs (st, [], []) = (st1, seen, final)"
    by (cases "cluster_loop gs gs (st, [], [])")
  from cluster_loop_reachable [of c "(st, [], [])" gs gs] Cons.prems cl
  have "reachable c st1" by simp
  from Cons.IH [OF this] have "reachable c (fst (cluster_all rs st1))" .
  then show ?case
    by (cases "cluster_all rs st1") (simp add: kv cl)
qed

lemma run_reachable: "reachable c (final_state (run c fs))"
proof (cases "load_results c fs init_state")
  case (Inl err)
  then show ?thesis by (simp add: run_def final_state_def reachable_init)
next
  case (Inr st)
  with load_results_reachable [OF reachable_init] have "reachable c st" by blast
  from cluster_all_reachable [OF this, of "results st"] Inr show ?thesis
    by (cases "cluster_all (results st) st") (simp add: run_def final_state_def)
qed

section \<open>Successors after merging\<close>

text \<open>
  Claim C5, as amended. \<^verbatim>\<open>update\<close> leaves every node as it is: it extends the lists
  of the absorbing graph and calls neither \<^verbatim>\<open>update_traces\<close> nor
  \<^verbatim>\<open>set_next_traces\<close>. In every state of a run, before and after any merges, a node
  object has at most one successor. When two findings pass through the same span to
  different continuations, the merged graph holds one node object per finding for that
  span, each with its own single successor.
\<close>

theorem merged_nodes_single_successor:
  assumes "reachable file_contents st"
  shows "length (next_traces (heap st r)) \<le> 1 \<and> heap (update g h st) = heap st"
  using wf_stateD(1) [OF reachable_wf [OF assms]] by (simp add: update_def)

theorem merged_nodes_single_successor_witness:
  "reachable sample_text (final_state (run sample_text [finding_1, finding_2]))
   \<and> length (next_traces (heap (final_state (run sample_text [finding_1, finding_2])) 0)) \<le> 1"
  using merged_nodes_single_successor [OF run_reachable, of sample_text "[finding_1, finding_2]" 0]
    run_reachable [of sample_text "[finding_1, finding_2]"]
  by simp

text \<open>
  Claim C5 as stated fails on its own scenario. The two sample findings start at the same
  source span (offset 0, text \<open>a\<close>) and end in different sinks. They are merged into
  one graph, whose sources are the nodes 0 and 2, equal under \<^verbatim>\<open>__eq__\<close>, and
  whose sinks are the nodes 1 and 3. Node 0 has the successor 1 alone, node 2 has the
  successor 3 alone, and the sinks have none.
\<close>

theorem merged_successors_counterexample:
  "run_clusters (run sample_text [finding_1, finding_2])
     = Inr [(''tainted-url-host'', [\<lparr> sources = [0, 2], intermediates = [], sinks = [1, 3] \<rparr>])]
   \<and> run_node_keys (run sample_text [finding_1, finding_2]) [0, 2, 1, 3]
     = [(0, ''a''), (0, ''a''), (10, ''k''), (20, ''u'')]
   \<and> run_successors (run sample_text [finding_1, finding_2]) [0, 2, 1, 3] = [[1], [3], [], []]"
  by code_simp

text \<open>
  Claim C10. In every state of a run (after any number of findings were turned into
  graphs and any number of merges) a node in the sinks list of a graph has no successor.
\<close>

theorem sinks_stay_terminal:
  assumes "reachable file_contents st" and "r \<in> set (sinks (graphs st g))"
  shows "next_traces (heap st r) = []"
  using wf_stateD(5) [OF reachable_wf [OF assms(1)] assms(2)] .

theorem sinks_stay_terminal_witness:
  "reachable sample_text (final_state (run sample_text [finding_1, finding_2]))
   \<and> 3 \<in> set (sinks (graphs (final_state (run sample_text [finding_1, finding_2])) 0))
   \<and> next_traces (heap (final_state (run sample_text [finding_1, finding_2])) 3) = []"
proof -
  have a: "reachable sample_text (final_state (run sample_text [finding_1, finding_2]))"
    by (rule run_reachable)
  have b: "3 \<in> set (sinks (graphs (final_state (run sample_text [finding_1, finding_2])) 0))"
    by code_simp
  from a b sinks_stay_terminal [OF a b] show ?thesis by blast
qed

section \<open>A finding without sources\<close>

lemma TaintTraceGraph_init_no_sources:
  "TaintTraceGraph_init h [] intermediates0 sinks0 = Inl list_index_error"
  by (simp add: TaintTraceGraph_init_def sorted_nodes_def Let_def)

lemma TaintTraceGraph_init_error:
  "TaintTraceGraph_init h sources0 intermediates0 sinks0 = Inl err \<Longrightarrow> err = list_index_error"
  by (auto simp: TaintTraceGraph_init_def Let_def split: if_splits)

lemma process_finding_error:
  assumes "process_finding c r st = Inl err"
  shows "err = list_index_error"
proof (cases "dataflow r")
  case None
  with assms show ?thesis by (simp add: process_finding_def)
next
  case (Some t)
  obtain b i e st1 where fs: "format_source r t c st = ((b, i, e), st1)"
    by (cases "format_source r t c st") auto
  with assms Some have "TaintTraceGraph_init (heap st1) b i e = Inl err"
    by (auto simp: process_finding_def split: sum.splits)
  then show ?thesis by (rule TaintTraceGraph_init_error)
qed

lemma process_finding_no_sources:
  assumes "dataflow r = Some t"
    and "\<forall>s\<in>set (taint_source t). escape (span_context c s) = ''.''"
  shows "process_finding c r st = Inl list_index_error"
proof -
  obtain b i e st1 where fs: "format_source r t c st = ((b, i, e), st1)"
    by (cases "format_source r t c st") auto
  from format_source_allocates(5) [OF fs assms(2)] have "b = []" .
  with fs assms(1) show ?thesis
    by (simp add: process_finding_def TaintTraceGraph_init_no_sources)
qed

lemma load_results_fails:
  assumes "r \<in> set fs" and "\<And>st. process_finding c r st = Inl list_index_error"
  shows "load_results c fs st = Inl list_index_error"
  using assms(1)
proof (induction fs arbitrary: st)
  case Nil
  then show ?case by simp
next
  case (Cons f fs)
  show ?case
  proof (cases "process_finding c f st")
    case (Inl err)
    with process_finding_error [OF Inl] show ?thesis by simp
  next
    case (Inr sta)
    with assms(2) [of st] have "f \<noteq> r" by auto
    with Cons.prems have "r \<in> set fs" by simp
    from Cons.IH [OF this, of sta] Inr show ?thesis by simp
  qed
qed

text \<open>
  Claim C3, as amended. Constructing a trace graph with zero sources raises the indexing
  error of \<^verbatim>\<open>sources[-1]\<close>, whose message names no finding. The driver does not catch
  it: when some finding with a dataflow trace has no source left after the conversion of
  its spans, the whole run ends with that error, and no graph of any finding is kept or
  rendered.
\<close>

theorem no_sources_raises_index_error:
  assumes "r \<in> set findings" and "dataflow r = Some t"
    and "\<forall>s\<in>set (taint_source t). escape (span_context file_contents s) = ''.''"
  shows "run file_contents findings = Inl (IndexError ''list index out of range'')
         \<and> TaintTraceGraph_init h [] intermediates0 sinks0
             = Inl (IndexError ''list index out of range'')"
proof -
  have "load_results file_contents findings init_state = Inl list_index_error"
    using assms(1) process_finding_no_sources [OF assms(2,3)] by (rule load_results_fails)
  then show ?thesis
    using TaintTraceGraph_init_no_sources [of h intermediates0 sinks0]
    by (simp add: run_def list_index_error_def)
qed

theorem no_sources_raises_index_error_witness:
  "finding_no_source \<in> set [finding_1, finding_no_source, finding_2]
   \<and> dataflow finding_no_source = Some \<lparr> taint_source = [], intermediate_vars = [] \<rparr>
   \<and> taint_source \<lparr> taint_source = [], intermediate_vars = [] \<rparr> = []
   \<and> run sample_text [finding_1, finding_no_source, finding_2]
       = Inl (IndexError ''list index out of range'')"
proof -
  let ?t = "\<lparr> taint_source = [], intermediate_vars = [] \<rparr>"
  have a: "finding_no_source \<in> set [finding_1, finding_no_source, finding_2]"
    by simp
  have b: "dataflow finding_no_source = Some ?t"
    by (simp add: finding_no_source_def)
  have c: "taint_source ?t = []"
    by simp
  then have c': "\<forall>s\<in>set (taint_source ?t). escape (span_context sample_text s) = ''.''"
    by simp
  from no_sources_raises_index_error [OF a b c'] a b c show ?thesis
    by blast
qed

text \<open>
  Claim C3 as stated fails. The first sample finding alone gives one graph; together with
  a finding without sources, before or after it, the run gives nothing but the indexing
  error.
\<close>

theorem no_sources_counterexample:
  "run_clusters (run sample_text [finding_1])
     = Inr [(''tainted-url-host'', [\<lparr> sources = [0], intermediates = [], sinks = [1] \<rparr>])]
   \<and> run_clusters (run sample_text [finding_no_source, finding_1])
     = Inl (IndexError ''list index out of range'')
   \<and> run_clusters (run sample_text [finding_1, finding_no_source])
     = Inl (IndexError ''list index out of range'')"
  by code_simp

section \<open>The graph of a finding\<close>




text \<open>Every node that a run creates covers the file contents, as claim C1 supposes.\<close>

lemma reachable_nodes_cover:
  "reachable c st \<Longrightarrow> r < next_ref st \<Longrightarrow> covers c (heap st r)"
  by (rule wf_stateD(6) [OF reachable_wf])

end
